theory Spec2Isabelle
  imports Complex_Main "HOL-Library.Sublist"
begin

section \<open>Interfaces consumed by \<open>infer_sft.py\<close>\<close>

text \<open>
  The tokenizer is an external collaborator. The driver uses two of its operations:
  \<open>tokenizer.encode(text).ids\<close> and \<open>tokenizer.id_to_token(id)\<close>; the latter returns
  \<open>None\<close> for an id outside the vocabulary. Token ids are non-negative integers.
\<close>

record tokenizer =
  encode :: "string \<Rightarrow> nat list"
  id_to_token :: "nat \<Rightarrow> string option"

text \<open>
  The module \<open>config\<close> is imported by the driver; the values of its constants are
  parameters of the model.
\<close>

record config =
  HUMAN_PREFIX :: string
  AI_PREFIX :: string
  ENABLE_KVCACHE :: bool

type_synonym history = "(string \<times> string) list"

definition NL :: string where
  "NL = [CHR 0x0A]"

text \<open>Python's \<open>xs[k:]\<close> for an arbitrary integer \<open>k\<close>: a negative \<open>k\<close> counts from the
  end, and both ends are clipped.\<close>

definition slice_from :: "int \<Rightarrow> 'a list \<Rightarrow> 'a list" where
  "slice_from k xs =
     (if 0 \<le> k then drop (nat k) xs else drop (length xs - nat (- k)) xs)"

section \<open>\<open>build_context\<close>\<close>

definition separator_ids :: "tokenizer \<Rightarrow> nat list" where
  "separator_ids tok = encode tok (NL @ NL @ NL)"

definition system_prompt_ids :: "tokenizer \<Rightarrow> string option \<Rightarrow> nat list" where
  "system_prompt_ids tok system_prompt =
     (case system_prompt of
        None \<Rightarrow> []
      | Some s \<Rightarrow> if s = [] then [] else encode tok s @ separator_ids tok)"

text \<open>One iteration of \<open>for i in range(len(history))\<close>, with \<open>ids\<close> threaded through.\<close>

definition turn_step :: "config \<Rightarrow> tokenizer \<Rightarrow> history \<Rightarrow> nat \<Rightarrow> nat list \<Rightarrow> nat list" where
  "turn_step cfg tok hist i ids =
     (let turn = hist ! i;
          ids1 = ids @ encode tok (HUMAN_PREFIX cfg) @ encode tok (fst turn) @ separator_ids tok;
          ids2 = ids1 @ encode tok (AI_PREFIX cfg) @ encode tok (snd turn)
      in if int i < int (length hist) - 1 then ids2 @ separator_ids tok else ids2)"

definition turn_ids :: "config \<Rightarrow> tokenizer \<Rightarrow> history \<Rightarrow> nat list" where
  "turn_ids cfg tok hist = fold (turn_step cfg tok hist) [0..<length hist] []"

definition build_context ::
  "config \<Rightarrow> tokenizer \<Rightarrow> history \<Rightarrow> int \<Rightarrow> string option \<Rightarrow> nat list" where
  "build_context cfg tok hist max_length system_prompt =
     (let sys = system_prompt_ids tok system_prompt;
          ids = turn_ids cfg tok hist
      in sys @ slice_from (int (length sys) - max_length) ids)"

text \<open>The layout of the turn tokens as the specification words it: per turn the human
  prefix, the human text, the separator, the AI prefix and the AI text, with one
  separator between consecutive turns and none after the last.\<close>

definition turn_layout :: "config \<Rightarrow> tokenizer \<Rightarrow> string \<times> string \<Rightarrow> nat list" where
  "turn_layout cfg tok turn =
     encode tok (HUMAN_PREFIX cfg) @ encode tok (fst turn) @ separator_ids tok
       @ encode tok (AI_PREFIX cfg) @ encode tok (snd turn)"

fun history_layout :: "config \<Rightarrow> tokenizer \<Rightarrow> history \<Rightarrow> nat list" where
  "history_layout cfg tok [] = []"
| "history_layout cfg tok [t] = turn_layout cfg tok t"
| "history_layout cfg tok (t # ts) =
     turn_layout cfg tok t @ separator_ids tok @ history_layout cfg tok ts"

section \<open>A small tokenizer and configuration for concrete runs\<close>

text \<open>A byte-level tokenizer: every character is one token whose id is its code; id 0
  is the unknown-token marker.\<close>

definition byte_id_to_token :: "nat \<Rightarrow> string option" where
  "byte_id_to_token i =
     (if i = 0 then Some ''<unk>'' else if i < 256 then Some [char_of i] else None)"

definition byte_tokenizer :: tokenizer where
  "byte_tokenizer = \<lparr> encode = map of_char, id_to_token = byte_id_to_token \<rparr>"

definition demo_config :: config where
  "demo_config = \<lparr> HUMAN_PREFIX = ''H'', AI_PREFIX = ''A'', ENABLE_KVCACHE = False \<rparr>"

section \<open>\<open>append_history\<close>\<close>

datatype error = RuntimeError | TypeError | ValueError | IndexError

text \<open>\<open>history[-1] = ...\<close> raises \<open>IndexError\<close> on an empty history.\<close>

definition append_history :: "history \<Rightarrow> string \<Rightarrow> string \<Rightarrow> error + history" where
  "append_history hist role text =
     (if role = ''human'' then Inr (hist @ [(text, [])])
      else if hist = [] then Inl IndexError
      else Inr (hist[length hist - 1 := (fst (last hist), text)]))"

section \<open>The sampling step\<close>

text \<open>
  Lines 175--181 and 204--211 are the same statements. The tensor operations are library
  calls; they are modelled on real numbers, for finite parameter values and a non-zero
  temperature:
  \<^item> \<open>F.softmax\<close> is a parameter of the model (field \<open>softmax\<close> below);
  \<^item> \<open>Tensor.topk(k)\<close> returns the \<open>k\<close> largest entries in descending order together
    with their positions, and raises when \<open>k\<close> is negative or exceeds the number of
    entries (among equal entries the earlier position is listed first here);
  \<^item> \<open>torch.multinomial(probs, 1)\<close> draws a position with probability proportional to
    its weight; the pseudo-random generator is replaced by an explicit uniform draw
    \<open>u\<close> with \<open>0 \<le> u < 1\<close> that is inverted through the cumulative weights. It raises
    on an empty input, a negative weight, or weights that sum to zero;
  \<^item> Python's \<open>round\<close> rounds halves to the even neighbour;
  \<^item> the product \<open>vocab_size * top_p\<close> is the exact product of the two numbers. The
    code rounds the product of two doubles, which differs from the exact product by a
    rounding error, so the two counts can differ by one where the exact product lies
    within that error of a half-integer (\<open>100 * 0.545\<close> for one). The runs evaluated
    below are away from such points.
\<close>

definition py_round :: "real \<Rightarrow> int" where
  "py_round x =
     (let f = \<lfloor>x\<rfloor>; d = x - of_int f
      in if d < 1 / 2 then f else if 1 / 2 < d then f + 1 else if even f then f else f + 1)"

definition ranked :: "real list \<Rightarrow> (real \<times> nat) list" where
  "ranked xs = sort_key (\<lambda>pi. - fst pi) (zip xs [0..<length xs])"

definition topk :: "int \<Rightarrow> real list \<Rightarrow> error + (real list \<times> nat list)" where
  "topk k xs =
     (if k < 0 \<or> int (length xs) < k then Inl RuntimeError
      else let best = take (nat k) (ranked xs)
           in Inr (map fst best, map snd best))"

fun pick_index :: "real list \<Rightarrow> real \<Rightarrow> nat \<Rightarrow> nat" where
  "pick_index [] r i = i"
| "pick_index [w] r i = i"
| "pick_index (w # ws) r i = (if r < w then i else pick_index ws (r - w) (Suc i))"

definition multinomial :: "real list \<Rightarrow> real \<Rightarrow> error + nat" where
  "multinomial ws u =
     (if ws = [] \<or> list_ex (\<lambda>w. w < 0) ws \<or> sum_list ws \<le> 0 then Inl RuntimeError
      else Inr (pick_index ws (u * sum_list ws) 0))"

text \<open>Lines 181 and 211: \<open>round(prob ** 0.5 * 16)\<close>.\<close>

definition confidence_level :: "real \<Rightarrow> int" where
  "confidence_level prob = py_round (sqrt prob * 16)"

text \<open>
  Everything the decoding loops read from their surroundings: the configuration module,
  the tokenizer, the model (stateless call and cache-updating call, each giving the
  logits of the last position), the entries of \<open>train_config\<close> and the vocabulary size.
\<close>

record 'c env =
  config :: config
  tokenizer :: tokenizer
  forward :: "nat list \<Rightarrow> real list"
  update :: "'c \<Rightarrow> nat list \<Rightarrow> 'c \<times> real list"
  softmax :: "real list \<Rightarrow> real list"
  vocab_size :: nat
  max_length :: int
  temperature :: real
  top_p :: real
  system_prompt :: "string option"

definition sample_step :: "('c, 'x) env_scheme \<Rightarrow> real list \<Rightarrow> real \<Rightarrow> error + (nat \<times> real)" where
  "sample_step e output u =
     (let logits = softmax e (map (\<lambda>x. x / temperature e) output)
      in case topk (py_round (real (vocab_size e) * top_p e)) logits of
           Inl err \<Rightarrow> Inl err
         | Inr (probs, indices) \<Rightarrow>
             (case multinomial probs u of
                Inl err \<Rightarrow> Inl err
              | Inr s \<Rightarrow> Inr (indices ! s, probs ! s)))"

section \<open>The decoding loops\<close>

text \<open>
  One iteration of a loop consumes one event: the random draw used by
  \<open>torch.multinomial\<close> in that iteration, or a \<open>KeyboardInterrupt\<close> raised in it. A loop
  that has left \<open>Generating\<close> ignores further events. An exception other than
  \<open>KeyboardInterrupt\<close> is not caught by the loop and ends it with \<open>Raised\<close>.

  The fields \<open>sampled\<close> (the token ids drawn so far) and \<open>fed\<close> (the arguments of the
  model calls so far) record the run; \<open>printed\<close> holds, for each \<open>print\<close>, the probability
  of the chosen token and the text printed. The colour of that text is
  \<open>confidence_level prob + 239\<close>; it has no influence on the loop.
\<close>

datatype 'r event = Draw 'r | KeyboardInterrupt

datatype status = Generating | Stopped | Interrupted | Raised error

record gen_state =
  status :: status
  n_blankline :: nat
  response :: string
  sampled :: "nat list"
  fed :: "nat list list"
  printed :: "(real \<times> string) list"

record full_state = gen_state +
  input_ids :: "nat list"

record 'c cache_state = gen_state +
  last_out :: "nat option"
  kv :: 'c

text \<open>Lines 183--191 and 212--220: decode the token, apply the stop policy, print and
  extend the response. A token id unknown to the tokenizer decodes to \<open>None\<close>, which is
  printed and then makes \<open>response += token\<close> raise \<open>TypeError\<close>.\<close>

definition emit :: "tokenizer \<Rightarrow> nat \<Rightarrow> real \<Rightarrow> 'a gen_state_scheme \<Rightarrow> 'a gen_state_scheme" where
  "emit tk token_id prob st =
     (let st1 = st\<lparr>sampled := sampled st @ [token_id]\<rparr>
      in case id_to_token tk token_id of
           None \<Rightarrow>
             st1\<lparr>n_blankline := 0,
                 printed := printed st @ [(prob, ''None'')],
                 status := Raised TypeError\<rparr>
         | Some token \<Rightarrow>
             if token = NL then
               (if 3 \<le> n_blankline st + 1
                then st1\<lparr>n_blankline := n_blankline st + 1, status := Stopped\<rparr>
                else st1\<lparr>n_blankline := n_blankline st + 1,
                         printed := printed st @ [(prob, token)],
                         response := response st @ token\<rparr>)
             else st1\<lparr>n_blankline := 0,
                      printed := printed st @ [(prob, token)],
                      response := response st @ token\<rparr>)"

text \<open>Lines 172--194, the loop taken when \<open>ENABLE_KVCACHE\<close> is off.\<close>

definition full_step :: "('c, 'x) env_scheme \<Rightarrow> real event \<Rightarrow> full_state \<Rightarrow> full_state" where
  "full_step e ev st =
     (if status st \<noteq> Generating then st
      else case ev of
        KeyboardInterrupt \<Rightarrow> st\<lparr>status := Interrupted\<rparr>
      | Draw u \<Rightarrow>
          (let output = forward e (input_ids st);
               st1 = st\<lparr>fed := fed st @ [input_ids st]\<rparr>
           in case sample_step e output u of
                Inl err \<Rightarrow> st1\<lparr>status := Raised err\<rparr>
              | Inr (token_id, prob) \<Rightarrow>
                  emit (tokenizer e) token_id prob
                    (st1\<lparr>input_ids := slice_from (- max_length e) (input_ids st @ [token_id])\<rparr>)))"

definition full_init :: "('c, 'x) env_scheme \<Rightarrow> history \<Rightarrow> full_state" where
  "full_init e hist =
     \<lparr>status = Generating, n_blankline = 0, response = [], sampled = [], fed = [], printed = [],
      input_ids = build_context (config e) (tokenizer e) hist (max_length e) (system_prompt e)\<rparr>"

definition full_run :: "('c, 'x) env_scheme \<Rightarrow> history \<Rightarrow> real event list \<Rightarrow> full_state" where
  "full_run e hist evs = fold (full_step e) evs (full_init e hist)"

text \<open>Lines 196--223, the loop taken when \<open>ENABLE_KVCACHE\<close> is on. \<open>last_out\<close> is \<open>None\<close> or
  a tensor holding one token id; \<open>not last_out\<close> is true for \<open>None\<close> and for a tensor whose
  single element is zero.\<close>

definition not_last_out :: "nat option \<Rightarrow> bool" where
  "not_last_out lo = (case lo of None \<Rightarrow> True | Some t \<Rightarrow> t = 0)"

definition cache_input :: "('c, 'x) env_scheme \<Rightarrow> history \<Rightarrow> nat option \<Rightarrow> nat list" where
  "cache_input e hist lo =
     (if not_last_out lo
      then build_context (config e) (tokenizer e) (slice_from (- 1) hist) (max_length e) None
      else (case lo of Some t \<Rightarrow> [t] | None \<Rightarrow> []))"

definition cache_step ::
  "('c, 'x) env_scheme \<Rightarrow> history \<Rightarrow> real event \<Rightarrow> 'c cache_state \<Rightarrow> 'c cache_state" where
  "cache_step e hist ev st =
     (if status st \<noteq> Generating then st
      else case ev of
        KeyboardInterrupt \<Rightarrow> st\<lparr>status := Interrupted\<rparr>
      | Draw u \<Rightarrow>
          (let inp = cache_input e hist (last_out st);
               (kv', last_out_logits) = update e (kv st) inp;
               st1 = st\<lparr>fed := fed st @ [inp], kv := kv'\<rparr>
           in case sample_step e last_out_logits u of
                Inl err \<Rightarrow> st1\<lparr>status := Raised err\<rparr>
              | Inr (token_id, prob) \<Rightarrow>
                  emit (tokenizer e) token_id prob (st1\<lparr>last_out := Some token_id\<rparr>)))"

definition cache_init :: "'c \<Rightarrow> 'c cache_state" where
  "cache_init c =
     \<lparr>status = Generating, n_blankline = 0, response = [], sampled = [], fed = [], printed = [],
      last_out = None, kv = c\<rparr>"

definition cache_run ::
  "('c, 'x) env_scheme \<Rightarrow> history \<Rightarrow> 'c \<Rightarrow> real event list \<Rightarrow> 'c cache_state" where
  "cache_run e hist c evs = fold (cache_step e hist) evs (cache_init c)"

text \<open>Lines 106--107 and 126--128: the cache is primed with the context of an empty
  history, which is the pinned system-prompt prefix.\<close>

definition prime :: "('c, 'x) env_scheme \<Rightarrow> 'c \<Rightarrow> 'c" where
  "prime e c = fst (update e c (build_context (config e) (tokenizer e) [] (max_length e) (system_prompt e)))"

text \<open>Modelled from the spec: the model adapter's cache-incremental call, whose code
  (\<open>model.update\<close> in the module \<open>.model\<close>) is not part of \<open>infer_sft.py\<close>. The
  specification says that a valid cache corresponds exactly to the token sequence seen
  so far and that \<open>advance\<close> returns the next-token distribution reflecting the updated
  cache: the cache is the list of tokens seen, and the result is what the stateless call
  gives on the extended list.\<close>

definition advance :: "(nat list \<Rightarrow> real list) \<Rightarrow> nat list \<Rightarrow> nat list \<Rightarrow> nat list \<times> real list" where
  "advance fwd seen tokens = (seen @ tokens, fwd (seen @ tokens))"

text \<open>Whether a sampled token decodes to a newline, the length of the run of newlines
  that ends a token sequence, and whether a sequence contains three consecutive
  newlines.\<close>

definition is_newline :: "tokenizer \<Rightarrow> nat \<Rightarrow> bool" where
  "is_newline tk t = (id_to_token tk t = Some NL)"

definition newline_run :: "tokenizer \<Rightarrow> nat list \<Rightarrow> nat" where
  "newline_run tk ts = length (takeWhile (is_newline tk) (rev ts))"

fun three_newlines :: "tokenizer \<Rightarrow> nat list \<Rightarrow> bool" where
  "three_newlines tk (a # b # c # ts) =
     ((is_newline tk a \<and> is_newline tk b \<and> is_newline tk c) \<or> three_newlines tk (b # c # ts))"
| "three_newlines tk ts = False"

section \<open>Interactive parameter commands\<close>

text \<open>
  Lines 131--150. \<open>float(...)\<close> is Python's builtin: it raises \<open>ValueError\<close> on an
  unparsable string and can return an infinity or a NaN as well as a finite number. It is
  a parameter of the model, with \<open>None\<close> for \<open>ValueError\<close>. Every comparison with a NaN
  is false. Finite values are modelled as real numbers.
\<close>

datatype pyfloat = Finite real | PosInf | NegInf | NaN

definition float_le :: "pyfloat \<Rightarrow> real \<Rightarrow> bool" where
  "float_le v c = (case v of Finite x \<Rightarrow> x \<le> c | PosInf \<Rightarrow> False | NegInf \<Rightarrow> True | NaN \<Rightarrow> False)"

definition float_gt :: "pyfloat \<Rightarrow> real \<Rightarrow> bool" where
  "float_gt v c = (case v of Finite x \<Rightarrow> c < x | PosInf \<Rightarrow> True | NegInf \<Rightarrow> False | NaN \<Rightarrow> False)"

text \<open>\<open>str.split()\<close> without arguments: the maximal runs of non-whitespace characters.
  Strings are sequences of characters with codes below 256; among those, these are the
  ones Python counts as whitespace.\<close>

definition is_space :: "char \<Rightarrow> bool" where
  "is_space c = (of_char c \<in> {9, 10, 11, 12, 13, 28, 29, 30, 31, 32, 133, 160 :: nat})"

fun split_words :: "string \<Rightarrow> string \<Rightarrow> string list" where
  "split_words [] w = (if w = [] then [] else [w])"
| "split_words (c # cs) w =
     (if is_space c then (if w = [] then split_words cs [] else w # split_words cs [])
      else split_words cs (w @ [c]))"

definition str_split :: "string \<Rightarrow> string list" where
  "str_split text = split_words text []"

text \<open>The float-valued entries of the dictionary \<open>train_config\<close>, and the lines the
  two commands print.\<close>

type_synonym train_config = "string \<rightharpoonup> pyfloat"

datatype line =
  TopPSet pyfloat | TopPUsage | TemperatureSet pyfloat | TemperatureUsage

definition top_p_command ::
  "(string \<Rightarrow> pyfloat option) \<Rightarrow> string \<Rightarrow> train_config \<Rightarrow> train_config \<times> line" where
  "top_p_command py_float text tc =
     (case str_split text of
        _ # arg # _ \<Rightarrow>
          (case py_float arg of
             None \<Rightarrow> (tc, TopPUsage)
           | Some v \<Rightarrow>
               if float_le v 0 \<or> float_gt v 1 then (tc, TopPUsage)
               else (tc(''top_p'' \<mapsto> v), TopPSet v))
      | _ \<Rightarrow> (tc, TopPUsage))"

definition temperature_command ::
  "(string \<Rightarrow> pyfloat option) \<Rightarrow> string \<Rightarrow> train_config \<Rightarrow> train_config \<times> line" where
  "temperature_command py_float text tc =
     (case str_split text of
        _ # arg # _ \<Rightarrow>
          (case py_float arg of
             None \<Rightarrow> (tc, TemperatureUsage)
           | Some v \<Rightarrow>
               if float_le v 0 \<or> float_gt v 2 then (tc, TemperatureUsage)
               else (tc(''temperature'' \<mapsto> v), TemperatureSet v))
      | _ \<Rightarrow> (tc, TemperatureUsage))"

text \<open>The two branches of the command chain that update a parameter; \<open>None\<close> when the
  input line is neither command.\<close>

definition parameter_command ::
  "(string \<Rightarrow> pyfloat option) \<Rightarrow> string \<Rightarrow> train_config \<Rightarrow> (train_config \<times> line) option" where
  "parameter_command py_float text tc =
     (if prefix ''!top_p'' text then Some (top_p_command py_float text tc)
      else if prefix ''!temperature'' text then Some (temperature_command py_float text tc)
      else None)"

text \<open>The values Python's \<open>float\<close> gives on a few literals, for concrete runs (\<open>0.9\<close>
  and \<open>1.5\<close> up to the rounding of a double); any other string is left unparsed here.\<close>

definition float_literals :: "string \<Rightarrow> pyfloat option" where
  "float_literals s =
     (if s = ''nan'' then Some NaN
      else if s = ''inf'' then Some PosInf
      else if s = ''0.9'' then Some (Finite (9 / 10))
      else if s = ''1.5'' then Some (Finite (3 / 2))
      else None)"

section \<open>Models and environments for concrete runs\<close>

text \<open>A stand-in for softmax in concrete runs: it scales non-negative scores to a
  probability distribution.\<close>

definition normalise :: "real list \<Rightarrow> real list" where
  "normalise xs = map (\<lambda>x. x / sum_list xs) xs"

text \<open>A model over a two-token vocabulary that puts all weight on token 1 after it has
  seen token 0 last, and on token 0 otherwise.\<close>

definition flip_forward :: "nat list \<Rightarrow> real list" where
  "flip_forward toks = (if toks \<noteq> [] \<and> last toks = 0 then [0, 1] else [1, 0])"

definition flip_env :: "(nat list) env" where
  "flip_env =
     \<lparr>config = demo_config, tokenizer = byte_tokenizer, forward = flip_forward,
      update = advance flip_forward, softmax = normalise, vocab_size = 2, max_length = 100,
      temperature = 1, top_p = 1, system_prompt = Some ''s''\<rparr>"

text \<open>The same environment with the cache loop switched on.\<close>

definition flip_cache_env :: "(nat list) env" where
  "flip_cache_env = flip_env\<lparr>config := demo_config\<lparr>ENABLE_KVCACHE := True\<rparr>\<rparr>"

text \<open>A model over eleven tokens that puts all weight on token 10, the newline, once it
  has seen token 7, and on token 7 otherwise.\<close>

definition newline_forward :: "nat list \<Rightarrow> real list" where
  "newline_forward toks =
     map (\<lambda>i. if i = (if 7 \<in> set toks then 10 else 7) then 1 else 0) [0..<11]"

definition newline_env :: "(nat list) env" where
  "newline_env =
     \<lparr>config = demo_config, tokenizer = byte_tokenizer, forward = newline_forward,
      update = advance newline_forward, softmax = normalise, vocab_size = 11, max_length = 100,
      temperature = 1, top_p = 1, system_prompt = None\<rparr>"

text \<open>The same environment with the cache loop switched on.\<close>

definition newline_cache_env :: "(nat list) env" where
  "newline_cache_env = newline_env\<lparr>config := demo_config\<lparr>ENABLE_KVCACHE := True\<rparr>\<rparr>"

text \<open>The invariant that ties the counter \<open>n_blankline\<close> and the status of a loop to the
  tokens sampled so far.\<close>

definition stop_policy_inv :: "tokenizer \<Rightarrow> 'a gen_state_scheme \<Rightarrow> bool" where
  "stop_policy_inv tk st =
     (n_blankline st = newline_run tk (sampled st) \<and>
      \<not> three_newlines tk (butlast (sampled st)) \<and>
      (status st = Stopped) = (3 \<le> newline_run tk (sampled st)))"

text \<open>The relation between a state of the full-recompute loop and a state of the
  cache-incremental loop (over the cache of \<open>advance\<close>) that have consumed the same
  events: they agree on everything the user observes, and while generating, what the
  cache holds followed by the pending input of the next cache call is the input of the
  next stateless call.\<close>

definition in_step ::
  "('c, 'x) env_scheme \<Rightarrow> history \<Rightarrow> full_state \<Rightarrow> nat list cache_state \<Rightarrow> bool" where
  "in_step e hist sf sc =
     (status sc = status sf \<and> n_blankline sc = n_blankline sf \<and> response sc = response sf \<and>
      sampled sc = sampled sf \<and> printed sc = printed sf \<and>
      (status sf = Generating \<longrightarrow>
         input_ids sf = kv sc @ cache_input e hist (last_out sc)))"

section \<open>A whole turn\<close>

text \<open>\<open>str.strip()\<close> without arguments removes the leading and the trailing whitespace.\<close>

definition strip :: "string \<Rightarrow> string" where
  "strip s = rev (dropWhile is_space (rev (dropWhile is_space s)))"

text \<open>Lines 169--223: exactly one of the two loops runs, chosen by \<open>ENABLE_KVCACHE\<close>. The
  result is the status the loop ended with, the response text and the model's cache.\<close>

definition generate ::
  "('c, 'x) env_scheme \<Rightarrow> history \<Rightarrow> 'c \<Rightarrow> real event list \<Rightarrow> status \<times> string \<times> 'c" where
  "generate e hist c evs =
     (if ENABLE_KVCACHE (config e)
      then (let st = cache_run e hist c evs in (status st, response st, kv st))
      else (let st = full_run e hist evs in (status st, response st, c)))"

text \<open>Lines 163--225 for an input line that is not a command: the human turn is appended,
  the response is generated, and the stripped response completes the turn. The result is
  \<open>None\<close> while the loop is still generating after the given events; an exception that
  leaves the loop ends the program.\<close>

definition turn ::
  "('c, 'x) env_scheme \<Rightarrow> string \<Rightarrow> real event list \<Rightarrow> history \<times> 'c \<Rightarrow>
     (error + history \<times> 'c) option" where
  "turn e text evs s =
     (case append_history (fst s) ''human'' text of
        Inl err \<Rightarrow> Some (Inl err)
      | Inr h1 \<Rightarrow>
          (let (st, resp, c') = generate e h1 (snd s) evs
           in case st of
                Generating \<Rightarrow> None
              | Raised err \<Rightarrow> Some (Inl err)
              | _ \<Rightarrow>
                  (case append_history h1 ''ai'' (strip resp) of
                     Inl err \<Rightarrow> Some (Inl err)
                   | Inr h2 \<Rightarrow> Some (Inr (h2, c')))))"

section \<open>Properties of \<open>build_context\<close>\<close>

lemma length_slice_from:
  "length (slice_from k xs) =
     (if 0 \<le> k then length xs - nat k else min (length xs) (nat (- k)))"
  by (auto simp: slice_from_def)

lemma slice_from_is_drop: "\<exists>n. slice_from k xs = drop n xs"
  by (auto simp: slice_from_def)

lemma slice_from_all:
  "k \<le> 0 \<Longrightarrow> int (length xs) \<le> - k \<Longrightarrow> slice_from k xs = xs"
  by (auto simp: slice_from_def)

lemma fold_turn_step_prefix:
  "n < length hist \<Longrightarrow>
   fold (turn_step cfg tok hist) [0..<n] [] =
     concat (map (\<lambda>t. turn_layout cfg tok t @ separator_ids tok) (take n hist))"
proof (induction n)
  case 0
  then show ?case by simp
next
  case (Suc n)
  then have n: "n < length hist" and sn: "int n < int (length hist) - 1" by auto
  from Suc.IH [OF n] sn show ?case
    by (simp add: take_Suc_conv_app_nth [OF n] turn_step_def turn_layout_def Let_def)
qed

lemma history_layout_snoc:
  "hist \<noteq> [] \<Longrightarrow>
   history_layout cfg tok hist =
     concat (map (\<lambda>t. turn_layout cfg tok t @ separator_ids tok) (butlast hist))
       @ turn_layout cfg tok (last hist)"
  by (induction cfg tok hist rule: history_layout.induct) simp_all

lemma turn_ids_layout: "turn_ids cfg tok hist = history_layout cfg tok hist"
proof (cases "hist = []")
  case True
  then show ?thesis by (simp add: turn_ids_def)
next
  case False
  then obtain n where n: "length hist = Suc n" by (cases hist) auto
  then have lt: "n < length hist" by simp
  have la: "hist ! n = last hist"
    using False n by (simp add: last_conv_nth)
  have bl: "take n hist = butlast hist"
    using n by (simp add: butlast_conv_take)
  have "turn_ids cfg tok hist =
          turn_step cfg tok hist n (fold (turn_step cfg tok hist) [0..<n] [])"
    by (simp add: turn_ids_def n)
  also have "\<dots> = concat (map (\<lambda>t. turn_layout cfg tok t @ separator_ids tok) (take n hist))
                     @ turn_layout cfg tok (hist ! n)"
    using n by (simp add: fold_turn_step_prefix [OF lt] turn_step_def turn_layout_def Let_def)
  finally show ?thesis
    by (simp add: la bl history_layout_snoc [OF False])
qed

lemma build_context_length_strict:
  assumes "int (length (system_prompt_ids tok sp)) < ml"
  shows "length (build_context cfg tok hist ml sp) =
           min (length (system_prompt_ids tok sp) + length (turn_ids cfg tok hist))
               (nat ml)"
  using assms by (auto simp: build_context_def Let_def length_slice_from)

lemma build_context_suffix:
  "\<exists>k. build_context cfg tok hist ml sp =
         system_prompt_ids tok sp @ drop k (turn_ids cfg tok hist)"
  using slice_from_is_drop [of "int (length (system_prompt_ids tok sp)) - ml"
      "turn_ids cfg tok hist"]
  by (simp add: build_context_def Let_def)

lemma build_context_fits:
  assumes "int (length (system_prompt_ids tok sp) + length (turn_ids cfg tok hist)) \<le> ml"
  shows "build_context cfg tok hist ml sp =
           system_prompt_ids tok sp @ turn_ids cfg tok hist"
proof -
  have "slice_from (int (length (system_prompt_ids tok sp)) - ml) (turn_ids cfg tok hist)
          = turn_ids cfg tok hist"
    using assms by (intro slice_from_all) auto
  then show ?thesis by (simp add: build_context_def Let_def)
qed

lemma byte_separator: "separator_ids byte_tokenizer = [10, 10, 10]"
  by (simp add: separator_ids_def byte_tokenizer_def NL_def)

lemma byte_turn_ids_hi:
  "turn_ids demo_config byte_tokenizer [(''hi'', '''')] = [72, 104, 105, 10, 10, 10, 65]"
  by (simp add: turn_ids_layout turn_layout_def byte_separator)
     (simp add: byte_tokenizer_def demo_config_def)

lemma byte_system_prompt_s:
  "system_prompt_ids byte_tokenizer (Some ''s'') = [115, 10, 10, 10]"
  by (simp add: system_prompt_ids_def byte_separator) (simp add: byte_tokenizer_def)

text \<open>
  Claim C2. Whenever the pinned system-prompt prefix has at most \<open>max_length\<close> tokens,
  the result of \<open>build_context\<close> should have at most \<open>max_length\<close> tokens. The code
  computes the turn window as \<open>ids[len(system_prompt_ids) - max_length:]\<close>; when the
  prefix has exactly \<open>max_length\<close> tokens the slice start is \<open>0\<close>, which keeps every
  turn token instead of none. Here the prefix has 4 tokens, \<open>max_length\<close> is 4, and the
  result has 11 tokens.
\<close>

theorem build_context_exact_fit_overflow:
  "length (system_prompt_ids byte_tokenizer (Some ''s'')) = 4 \<and>
   build_context demo_config byte_tokenizer [(''hi'', '''')] 4 (Some ''s'') =
     [115, 10, 10, 10, 72, 104, 105, 10, 10, 10, 65] \<and>
   length (build_context demo_config byte_tokenizer [(''hi'', '''')] 4 (Some ''s'')) = 11"
  by (simp add: build_context_def Let_def byte_system_prompt_s byte_turn_ids_hi slice_from_def)

text \<open>
  Claim C3. For every history and every present (non-empty) system prompt, the encoded
  system prompt followed by the separator is a literal prefix of the result of
  \<open>build_context\<close>, and what follows that prefix is the sequence of turn tokens with one
  block of its leftmost (oldest) tokens removed: nothing is taken from the middle of the
  turn tokens and nothing from the pinned prefix.
\<close>

theorem build_context_pins_prefix_drops_oldest:
  assumes "s \<noteq> []"
  shows "prefix (encode tok s @ separator_ids tok) (build_context cfg tok hist ml (Some s)) \<and>
         (\<exists>k. build_context cfg tok hist ml (Some s) =
                (encode tok s @ separator_ids tok) @ drop k (turn_ids cfg tok hist))"
proof -
  have sys: "system_prompt_ids tok (Some s) = encode tok s @ separator_ids tok"
    using assms by (simp add: system_prompt_ids_def)
  obtain k where k: "build_context cfg tok hist ml (Some s) =
      system_prompt_ids tok (Some s) @ drop k (turn_ids cfg tok hist)"
    using build_context_suffix by blast
  have "prefix (encode tok s @ separator_ids tok) (build_context cfg tok hist ml (Some s))"
    unfolding k sys by (rule prefixI) simp
  moreover have "\<exists>k. build_context cfg tok hist ml (Some s) =
      (encode tok s @ separator_ids tok) @ drop k (turn_ids cfg tok hist)"
    using k sys by auto
  ultimately show ?thesis by blast
qed

theorem build_context_pins_prefix_drops_oldest_witness:
  "''s'' \<noteq> [] \<and>
   prefix (encode byte_tokenizer ''s'' @ separator_ids byte_tokenizer)
     (build_context demo_config byte_tokenizer [(''hi'', '''')] 6 (Some ''s'')) \<and>
   (\<exists>k. build_context demo_config byte_tokenizer [(''hi'', '''')] 6 (Some ''s'') =
          (encode byte_tokenizer ''s'' @ separator_ids byte_tokenizer)
            @ drop k (turn_ids demo_config byte_tokenizer [(''hi'', '''')]))"
  using build_context_pins_prefix_drops_oldest
    [of "''s''" byte_tokenizer demo_config "[(''hi'', '''')]" 6]
  by simp

text \<open>
  Claim C9. The turn tokens assembled by the loop of \<open>build_context\<close> are, for each turn
  in order, human prefix, encoded human text, separator, AI prefix and encoded AI text,
  with a separator between consecutive turns and none after the last turn. Whenever
  \<open>max_length\<close> is large enough for the whole sequence, \<open>build_context\<close> returns the
  pinned prefix followed by these turn tokens; in particular the history
  \<open>[("hi", "")]\<close> with system prompt "Be terse" gives the encoded prompt, the
  separator, the human prefix, the encoding of "hi", the separator and the AI prefix
  followed by the encoding of the empty AI text.
\<close>

theorem build_context_layout:
  "turn_ids cfg tok hist = history_layout cfg tok hist \<and>
   (int (length (system_prompt_ids tok sp) + length (history_layout cfg tok hist)) \<le> ml \<longrightarrow>
      build_context cfg tok hist ml sp =
        system_prompt_ids tok sp @ history_layout cfg tok hist) \<and>
   (int (length (encode tok ''Be terse'' @ separator_ids tok @ encode tok (HUMAN_PREFIX cfg)
           @ encode tok ''hi'' @ separator_ids tok @ encode tok (AI_PREFIX cfg)
           @ encode tok '''')) \<le> ml \<longrightarrow>
      build_context cfg tok [(''hi'', '''')] ml (Some ''Be terse'') =
        encode tok ''Be terse'' @ separator_ids tok @ encode tok (HUMAN_PREFIX cfg)
          @ encode tok ''hi'' @ separator_ids tok @ encode tok (AI_PREFIX cfg) @ encode tok '''')"
proof (intro conjI impI)
  show "turn_ids cfg tok hist = history_layout cfg tok hist"
    by (rule turn_ids_layout)
next
  assume "int (length (system_prompt_ids tok sp) + length (history_layout cfg tok hist)) \<le> ml"
  then show "build_context cfg tok hist ml sp =
      system_prompt_ids tok sp @ history_layout cfg tok hist"
    using build_context_fits [of tok sp cfg hist ml] by (simp add: turn_ids_layout)
next
  assume a: "int (length (encode tok ''Be terse'' @ separator_ids tok @ encode tok (HUMAN_PREFIX cfg)
           @ encode tok ''hi'' @ separator_ids tok @ encode tok (AI_PREFIX cfg)
           @ encode tok '''')) \<le> ml"
  have sys: "system_prompt_ids tok (Some ''Be terse'') = encode tok ''Be terse'' @ separator_ids tok"
    by (simp add: system_prompt_ids_def)
  have ids: "turn_ids cfg tok [(''hi'', '''')] =
      encode tok (HUMAN_PREFIX cfg) @ encode tok ''hi'' @ separator_ids tok
        @ encode tok (AI_PREFIX cfg) @ encode tok ''''"
    by (simp add: turn_ids_layout turn_layout_def)
  from a have "int (length (system_prompt_ids tok (Some ''Be terse''))
      + length (turn_ids cfg tok [(''hi'', '''')])) \<le> ml"
    by (simp add: sys ids)
  from build_context_fits [OF this] show "build_context cfg tok [(''hi'', '''')] ml (Some ''Be terse'') =
        encode tok ''Be terse'' @ separator_ids tok @ encode tok (HUMAN_PREFIX cfg)
          @ encode tok ''hi'' @ separator_ids tok @ encode tok (AI_PREFIX cfg) @ encode tok ''''"
    by (simp add: sys ids)
qed

theorem build_context_layout_witness:
  "build_context demo_config byte_tokenizer [(''hi'', '''')] 100 (Some ''Be terse'') =
     [66, 101, 32, 116, 101, 114, 115, 101, 10, 10, 10, 72, 104, 105, 10, 10, 10, 65] \<and>
   build_context demo_config byte_tokenizer [(''a'', ''b''), (''c'', '''')] 100 None =
     [72, 97, 10, 10, 10, 65, 98, 10, 10, 10, 72, 99, 10, 10, 10, 65]"
proof -
  have 1: "build_context demo_config byte_tokenizer [(''hi'', '''')] 100 (Some ''Be terse'') =
     [66, 101, 32, 116, 101, 114, 115, 101, 10, 10, 10, 72, 104, 105, 10, 10, 10, 65]"
    using build_context_layout [of demo_config byte_tokenizer "[]" None 100]
    by (simp add: byte_separator) (simp add: byte_tokenizer_def demo_config_def)
  have 2: "build_context demo_config byte_tokenizer [(''a'', ''b''), (''c'', '''')] 100 None =
     [72, 97, 10, 10, 10, 65, 98, 10, 10, 10, 72, 99, 10, 10, 10, 65]"
    using build_context_layout [of demo_config byte_tokenizer "[(''a'', ''b''), (''c'', '''')]" None 100]
    by (simp add: system_prompt_ids_def turn_layout_def byte_separator)
       (simp add: byte_tokenizer_def demo_config_def)
  from 1 2 show ?thesis by simp
qed

section \<open>The stop policy\<close>

lemma newline_run_snoc:
  "newline_run tk (ts @ [t]) = (if is_newline tk t then Suc (newline_run tk ts) else 0)"
  by (simp add: newline_run_def)

lemma newline_run_Cons:
  assumes "2 \<le> length ts"
  shows "(2 \<le> newline_run tk (a # ts)) = (2 \<le> newline_run tk ts)"
proof (cases "\<forall>x\<in>set (rev ts). is_newline tk x")
  case True
  then have 1: "takeWhile (is_newline tk) (rev ts @ [a]) = rev ts @ takeWhile (is_newline tk) [a]"
    by (intro takeWhile_append2) simp
  from True have 2: "takeWhile (is_newline tk) (rev ts) = rev ts"
    by (simp add: takeWhile_eq_all_conv)
  from assms show ?thesis by (simp add: newline_run_def 1 2)
next
  case False
  then obtain x where "x \<in> set (rev ts)" "\<not> is_newline tk x" by blast
  then show ?thesis by (simp add: newline_run_def takeWhile_append1)
qed

lemma three_newlines_snoc:
  "three_newlines tk (ts @ [t]) =
     (three_newlines tk ts \<or> (is_newline tk t \<and> 2 \<le> newline_run tk ts))"
proof (induction tk ts rule: three_newlines.induct)
  case (1 tk a b c ts)
  have "(2 \<le> newline_run tk (a # b # c # ts)) = (2 \<le> newline_run tk (b # c # ts))"
    by (rule newline_run_Cons) simp
  with 1 show ?case by auto
qed (auto simp: newline_run_def)

lemma three_newlines_iff_run:
  assumes "\<not> three_newlines tk (butlast ts)"
  shows "three_newlines tk ts = (3 \<le> newline_run tk ts)"
proof (cases ts rule: rev_cases)
  case Nil
  then show ?thesis by (simp add: newline_run_def)
next
  case (snoc us t)
  with assms show ?thesis
    by (auto simp: three_newlines_snoc newline_run_snoc)
qed

lemma emit_inv:
  assumes "status st = Generating" and "stop_policy_inv tk st"
  shows "stop_policy_inv tk (emit tk t p st)"
proof -
  from assms have n: "n_blankline st = newline_run tk (sampled st)"
    and b: "\<not> three_newlines tk (butlast (sampled st))"
    and r: "\<not> 3 \<le> newline_run tk (sampled st)"
    by (auto simp: stop_policy_inv_def)
  from b r have "\<not> three_newlines tk (sampled st)"
    by (simp add: three_newlines_iff_run)
  with n r assms(1) show ?thesis
    by (auto simp: stop_policy_inv_def emit_def Let_def newline_run_snoc is_newline_def
        split: option.splits)
qed

lemma full_step_inv:
  assumes "stop_policy_inv (tokenizer e) st"
  shows "stop_policy_inv (tokenizer e) (full_step e ev st)"
proof (cases "status st = Generating")
  case False
  then show ?thesis using assms by (simp add: full_step_def)
next
  case True
  show ?thesis
  proof (cases ev)
    case KeyboardInterrupt
    with True assms show ?thesis by (auto simp: full_step_def stop_policy_inv_def)
  next
    case (Draw u)
    show ?thesis
    proof (cases "sample_step e (forward e (input_ids st)) u")
      case (Inl err)
      with True Draw assms show ?thesis
        by (auto simp: full_step_def stop_policy_inv_def Let_def)
    next
      case (Inr tp)
      obtain t p where tp: "tp = (t, p)" by (cases tp)
      let ?st1 = "st\<lparr>fed := fed st @ [input_ids st],
        input_ids := slice_from (- max_length e) (input_ids st @ [t])\<rparr>"
      have "status ?st1 = Generating" "stop_policy_inv (tokenizer e) ?st1"
        using True assms by (simp_all add: stop_policy_inv_def)
      then have "stop_policy_inv (tokenizer e) (emit (tokenizer e) t p ?st1)"
        by (rule emit_inv)
      with True Draw Inr tp show ?thesis by (simp add: full_step_def Let_def)
    qed
  qed
qed

lemma cache_step_inv:
  assumes "stop_policy_inv (tokenizer e) st"
  shows "stop_policy_inv (tokenizer e) (cache_step e hist ev st)"
proof (cases "status st = Generating")
  case False
  then show ?thesis using assms by (simp add: cache_step_def)
next
  case True
  show ?thesis
  proof (cases ev)
    case KeyboardInterrupt
    with True assms show ?thesis by (auto simp: cache_step_def stop_policy_inv_def)
  next
    case (Draw u)
    obtain kv' logits where up: "update e (kv st) (cache_input e hist (last_out st)) = (kv', logits)"
      by (cases "update e (kv st) (cache_input e hist (last_out st))")
    show ?thesis
    proof (cases "sample_step e logits u")
      case (Inl err)
      with True Draw assms up show ?thesis
        by (auto simp: cache_step_def stop_policy_inv_def Let_def)
    next
      case (Inr tp)
      obtain t p where tp: "tp = (t, p)" by (cases tp)
      let ?st1 = "st\<lparr>fed := fed st @ [cache_input e hist (last_out st)], kv := kv',
        last_out := Some t\<rparr>"
      have "status ?st1 = Generating" "stop_policy_inv (tokenizer e) ?st1"
        using True assms by (simp_all add: stop_policy_inv_def)
      then have "stop_policy_inv (tokenizer e) (emit (tokenizer e) t p ?st1)"
        by (rule emit_inv)
      with True Draw Inr tp up show ?thesis by (simp add: cache_step_def Let_def)
    qed
  qed
qed

lemma full_run_inv: "stop_policy_inv (tokenizer e) (full_run e hist evs)"
proof (induction evs rule: rev_induct)
  case Nil
  show ?case by (simp add: full_run_def full_init_def stop_policy_inv_def newline_run_def)
next
  case (snoc ev evs)
  then show ?case by (simp add: full_run_def full_step_inv)
qed

lemma cache_run_inv: "stop_policy_inv (tokenizer e) (cache_run e hist c evs)"
proof (induction evs rule: rev_induct)
  case Nil
  show ?case by (simp add: cache_run_def cache_init_def stop_policy_inv_def newline_run_def)
next
  case (snoc ev evs)
  then show ?case by (simp add: cache_run_def cache_step_inv)
qed

text \<open>
  Claim C4. In both generation modes and after any sequence of iterations, the loop has
  stopped through the newline rule exactly when the sampled tokens contain three
  consecutive newlines, which is exactly when they end with three newlines; the tokens
  before the last one never contain three consecutive newlines, so no token is sampled
  after the third consecutive newline and the rule never fires earlier. The counter
  \<open>n_blankline\<close> always equals the length of the run of newlines that ends the sampled
  tokens, so it is zero after every token that does not decode to a newline. (An
  interrupt or an exception leaves the loop with another status.)
\<close>

theorem stop_at_third_consecutive_newline:
  "(status (full_run e hist evs) = Stopped) =
      three_newlines (tokenizer e) (sampled (full_run e hist evs)) \<and>
   (status (full_run e hist evs) = Stopped) =
      (3 \<le> newline_run (tokenizer e) (sampled (full_run e hist evs))) \<and>
   \<not> three_newlines (tokenizer e) (butlast (sampled (full_run e hist evs))) \<and>
   n_blankline (full_run e hist evs) = newline_run (tokenizer e) (sampled (full_run e hist evs)) \<and>
   (status (cache_run e' hist' c evs') = Stopped) =
      three_newlines (tokenizer e') (sampled (cache_run e' hist' c evs')) \<and>
   (status (cache_run e' hist' c evs') = Stopped) =
      (3 \<le> newline_run (tokenizer e') (sampled (cache_run e' hist' c evs'))) \<and>
   \<not> three_newlines (tokenizer e') (butlast (sampled (cache_run e' hist' c evs'))) \<and>
   n_blankline (cache_run e' hist' c evs') =
      newline_run (tokenizer e') (sampled (cache_run e' hist' c evs'))"
  using full_run_inv [of e hist evs] cache_run_inv [of e' hist' c evs']
  by (simp add: stop_policy_inv_def three_newlines_iff_run)

theorem stop_at_third_consecutive_newline_witness:
  "status (full_run newline_env [(''hi'', '''')] [Draw 0, Draw 0, Draw 0, Draw 0, Draw 0]) = Stopped \<and>
   sampled (full_run newline_env [(''hi'', '''')] [Draw 0, Draw 0, Draw 0, Draw 0, Draw 0]) = [7, 10, 10, 10] \<and>
   three_newlines (tokenizer newline_env)
     (sampled (full_run newline_env [(''hi'', '''')] [Draw 0, Draw 0, Draw 0, Draw 0, Draw 0])) \<and>
   status (cache_run newline_cache_env [(''hi'', '''')] (prime newline_cache_env [])
     [Draw 0, Draw 0, Draw 0, Draw 0, Draw 0]) = Stopped \<and>
   sampled (cache_run newline_cache_env [(''hi'', '''')] (prime newline_cache_env [])
     [Draw 0, Draw 0, Draw 0, Draw 0, Draw 0]) = [7, 10, 10, 10] \<and>
   three_newlines (tokenizer newline_cache_env)
     (sampled (cache_run newline_cache_env [(''hi'', '''')] (prime newline_cache_env [])
        [Draw 0, Draw 0, Draw 0, Draw 0, Draw 0]))"
proof -
  have f: "status (full_run newline_env [(''hi'', '''')] [Draw 0, Draw 0, Draw 0, Draw 0, Draw 0]) = Stopped"
    by code_simp
  have fs: "sampled (full_run newline_env [(''hi'', '''')] [Draw 0, Draw 0, Draw 0, Draw 0, Draw 0]) = [7, 10, 10, 10]"
    by code_simp
  have c: "status (cache_run newline_cache_env [(''hi'', '''')] (prime newline_cache_env [])
     [Draw 0, Draw 0, Draw 0, Draw 0, Draw 0]) = Stopped"
    by code_simp
  have cs: "sampled (cache_run newline_cache_env [(''hi'', '''')] (prime newline_cache_env [])
     [Draw 0, Draw 0, Draw 0, Draw 0, Draw 0]) = [7, 10, 10, 10]"
    by code_simp
  from f c stop_at_third_consecutive_newline
    [of newline_env "[(''hi'', '''')]" "[Draw 0, Draw 0, Draw 0, Draw 0, Draw 0]"
      newline_cache_env "[(''hi'', '''')]" "prime newline_cache_env []"
      "[Draw 0, Draw 0, Draw 0, Draw 0, Draw 0]"]
  have "three_newlines (tokenizer newline_env)
     (sampled (full_run newline_env [(''hi'', '''')] [Draw 0, Draw 0, Draw 0, Draw 0, Draw 0])) \<and>
    three_newlines (tokenizer newline_cache_env)
     (sampled (cache_run newline_cache_env [(''hi'', '''')] (prime newline_cache_env [])
        [Draw 0, Draw 0, Draw 0, Draw 0, Draw 0]))"
    by blast
  with f fs c cs show ?thesis by blast
qed

section \<open>The two decoding loops side by side\<close>

lemma emit_fields:
  "sampled (emit tk t p st) = sampled st @ [t]"
  "fed (emit tk t p st) = fed st"
  by (simp_all add: emit_def Let_def split: option.splits)

lemma emit_full_fields: "input_ids (emit tk t p st) = input_ids st"
  by (simp add: emit_def Let_def split: option.splits)

lemma emit_cache_fields:
  "last_out (emit tk t p st) = last_out st"
  "kv (emit tk t p st) = kv st"
  by (simp_all add: emit_def Let_def split: option.splits)

lemma slice_from_last: "hist \<noteq> [] \<Longrightarrow> slice_from (- 1) hist = [last hist]"
  by (cases hist rule: rev_cases) (simp_all add: slice_from_def)

lemma cache_input_first:
  "cache_input e hist None =
     build_context (config e) (tokenizer e) (slice_from (- 1) hist) (max_length e) None"
  by (simp add: cache_input_def not_last_out_def)

lemma cache_input_nonzero: "t \<noteq> 0 \<Longrightarrow> cache_input e hist (Some t) = [t]"
  by (simp add: cache_input_def not_last_out_def)

lemma cache_input_zero:
  "cache_input e hist (Some 0) =
     build_context (config e) (tokenizer e) (slice_from (- 1) hist) (max_length e) None"
  by (simp add: cache_input_def not_last_out_def)

lemma cache_step_draw:
  assumes "status st = Generating"
  shows "fed (cache_step e hist (Draw u) st) = fed st @ [cache_input e hist (last_out st)]"
proof -
  obtain kv' logits where up: "update e (kv st) (cache_input e hist (last_out st)) = (kv', logits)"
    by (cases "update e (kv st) (cache_input e hist (last_out st))")
  show ?thesis
  proof (cases "sample_step e logits u")
    case (Inl err)
    with assms up show ?thesis by (simp add: cache_step_def Let_def)
  next
    case (Inr tp)
    obtain t p where "tp = (t, p)" by (cases tp)
    with Inr assms up show ?thesis by (simp add: cache_step_def Let_def emit_fields)
  qed
qed

lemma cache_step_last_out:
  assumes "status st = Generating"
    and "update e (kv st) (cache_input e hist (last_out st)) = (kv', logits)"
    and "sample_step e logits u = Inr (t, p)"
  shows "last_out (cache_step e hist (Draw u) st) = Some t"
    and "sampled (cache_step e hist (Draw u) st) = sampled st @ [t]"
  using assms by (simp_all add: cache_step_def Let_def emit_fields emit_cache_fields)

lemma emit_in_step:
  assumes "status sc = status sf" "n_blankline sc = n_blankline sf" "response sc = response sf"
    "sampled sc = sampled sf" "printed sc = printed sf"
  shows "status (emit tk t p sc) = status (emit tk t p sf)"
    "n_blankline (emit tk t p sc) = n_blankline (emit tk t p sf)"
    "response (emit tk t p sc) = response (emit tk t p sf)"
    "sampled (emit tk t p sc) = sampled (emit tk t p sf)"
    "printed (emit tk t p sc) = printed (emit tk t p sf)"
  using assms by (simp_all add: emit_def Let_def split: option.splits)

lemma step_in_step:
  assumes adv: "update e = advance (forward e)"
    and rel: "in_step e hist sf sc"
    and room: "int (length (input_ids sf)) < max_length e"
    and nz: "0 \<notin> set (sampled (cache_step e hist ev sc))"
  shows "in_step e hist (full_step e ev sf) (cache_step e hist ev sc)"
proof (cases "status sf = Generating")
  case False
  with rel show ?thesis by (simp add: in_step_def full_step_def cache_step_def)
next
  case True
  with rel have gc: "status sc = Generating"
    and inp: "input_ids sf = kv sc @ cache_input e hist (last_out sc)"
    by (simp_all add: in_step_def)
  show ?thesis
  proof (cases ev)
    case KeyboardInterrupt
    with True gc rel show ?thesis by (simp add: in_step_def full_step_def cache_step_def)
  next
    case (Draw u)
    have up: "update e (kv sc) (cache_input e hist (last_out sc)) =
        (input_ids sf, forward e (input_ids sf))"
      by (simp add: adv advance_def inp)
    show ?thesis
    proof (cases "sample_step e (forward e (input_ids sf)) u")
      case (Inl err)
      with True gc Draw up rel show ?thesis
        by (simp add: in_step_def full_step_def cache_step_def Let_def)
    next
      case (Inr tp)
      obtain t p where tp: "tp = (t, p)" by (cases tp)
      let ?sf1 = "sf\<lparr>fed := fed sf @ [input_ids sf],
        input_ids := slice_from (- max_length e) (input_ids sf @ [t])\<rparr>"
      let ?sc1 = "sc\<lparr>fed := fed sc @ [cache_input e hist (last_out sc)], kv := input_ids sf,
        last_out := Some t\<rparr>"
      have f: "full_step e ev sf = emit (tokenizer e) t p ?sf1"
        using True Draw Inr tp by (simp add: full_step_def Let_def)
      have c: "cache_step e hist ev sc = emit (tokenizer e) t p ?sc1"
        using gc Draw Inr tp up by (simp add: cache_step_def Let_def)
      from nz have t0: "t \<noteq> 0" by (auto simp: c emit_fields)
      have win: "slice_from (- max_length e) (input_ids sf @ [t]) = input_ids sf @ [t]"
        using room by (intro slice_from_all) auto
      have pre: "status ?sc1 = status ?sf1" "n_blankline ?sc1 = n_blankline ?sf1"
        "response ?sc1 = response ?sf1" "sampled ?sc1 = sampled ?sf1" "printed ?sc1 = printed ?sf1"
        using rel by (simp_all add: in_step_def)
      note g = emit_in_step [OF pre, of "tokenizer e" t p]
      have k: "input_ids (emit (tokenizer e) t p ?sf1) =
          kv (emit (tokenizer e) t p ?sc1) @ cache_input e hist (last_out (emit (tokenizer e) t p ?sc1))"
        by (simp add: emit_full_fields emit_cache_fields win cache_input_nonzero [OF t0])
      show ?thesis unfolding f c in_step_def using g k by simp
    qed
  qed
qed

lemma full_step_length:
  "length (input_ids (full_step e ev st)) \<le> Suc (length (input_ids st))"
proof (cases "status st = Generating")
  case False
  then show ?thesis by (simp add: full_step_def)
next
  case True
  show ?thesis
  proof (cases ev)
    case KeyboardInterrupt
    with True show ?thesis by (simp add: full_step_def)
  next
    case (Draw u)
    show ?thesis
    proof (cases "sample_step e (forward e (input_ids st)) u")
      case (Inl err)
      with True Draw show ?thesis by (simp add: full_step_def Let_def)
    next
      case (Inr tp)
      obtain t p where "tp = (t, p)" by (cases tp)
      with True Draw Inr show ?thesis
        by (simp add: full_step_def Let_def emit_full_fields length_slice_from)
    qed
  qed
qed

lemma full_run_length:
  "length (input_ids (full_run e hist evs)) \<le>
     length (build_context (config e) (tokenizer e) hist (max_length e) (system_prompt e)) + length evs"
proof (induction evs rule: rev_induct)
  case Nil
  show ?case by (simp add: full_run_def full_init_def)
next
  case (snoc ev evs)
  have "length (input_ids (full_run e hist (evs @ [ev])))
      \<le> Suc (length (input_ids (full_run e hist evs)))"
    by (simp add: full_run_def full_step_length)
  with snoc show ?case by simp
qed

lemma cache_step_sampled: "set (sampled st) \<subseteq> set (sampled (cache_step e hist ev st))"
proof (cases "status st = Generating")
  case False
  then show ?thesis by (simp add: cache_step_def)
next
  case True
  show ?thesis
  proof (cases ev)
    case KeyboardInterrupt
    with True show ?thesis by (simp add: cache_step_def)
  next
    case (Draw u)
    obtain kv' logits where up: "update e (kv st) (cache_input e hist (last_out st)) = (kv', logits)"
      by (cases "update e (kv st) (cache_input e hist (last_out st))")
    show ?thesis
    proof (cases "sample_step e logits u")
      case (Inl err)
      with True Draw up show ?thesis by (simp add: cache_step_def Let_def)
    next
      case (Inr tp)
      obtain t p where "tp = (t, p)" by (cases tp)
      with True Draw Inr up show ?thesis
        by (auto simp: cache_step_def Let_def emit_fields)
    qed
  qed
qed

lemma cache_run_in_step:
  assumes adv: "update e = advance (forward e)"
    and sync: "c @ cache_input e hist None =
        build_context (config e) (tokenizer e) hist (max_length e) (system_prompt e)"
  shows "int (length (build_context (config e) (tokenizer e) hist (max_length e) (system_prompt e))
            + length evs) \<le> max_length e \<Longrightarrow>
         0 \<notin> set (sampled (cache_run e hist c evs)) \<Longrightarrow>
         in_step e hist (full_run e hist evs) (cache_run e hist c evs)"
proof (induction evs rule: rev_induct)
  case Nil
  show ?case
    by (simp add: in_step_def full_run_def cache_run_def full_init_def cache_init_def sync)
next
  case (snoc ev evs)
  have nz': "0 \<notin> set (sampled (cache_run e hist c evs))"
    using snoc.prems(2) cache_step_sampled [of "cache_run e hist c evs" e hist ev]
    by (auto simp: cache_run_def)
  have rel: "in_step e hist (full_run e hist evs) (cache_run e hist c evs)"
    using snoc.IH snoc.prems(1) nz' by simp
  have room: "int (length (input_ids (full_run e hist evs))) < max_length e"
    using full_run_length [of e hist evs] snoc.prems(1) by simp
  have nz: "0 \<notin> set (sampled (cache_step e hist ev (cache_run e hist c evs)))"
    using snoc.prems(2) by (simp add: cache_run_def)
  from step_in_step [OF adv rel room nz] show ?case
    by (simp add: full_run_def cache_run_def)
qed

lemma turn_ids_Nil: "turn_ids cfg tok [] = []"
  by (simp add: turn_ids_def)

lemma prime_advance:
  assumes "update e = advance (forward e)"
  shows "prime e [] = system_prompt_ids (tokenizer e) (system_prompt e)"
  by (simp add: prime_def assms advance_def build_context_def Let_def turn_ids_Nil slice_from_def)

lemma first_turn_sync:
  assumes adv: "update e = advance (forward e)"
    and fits: "int (length (system_prompt_ids (tokenizer e) (system_prompt e))
        + length (turn_ids (config e) (tokenizer e) [(text, [])])) \<le> max_length e"
  shows "prime e [] @ cache_input e [(text, [])] None =
     build_context (config e) (tokenizer e) [(text, [])] (max_length e) (system_prompt e)"
proof -
  have 1: "cache_input e [(text, [])] None = turn_ids (config e) (tokenizer e) [(text, [])]"
    using fits
    by (simp add: cache_input_first slice_from_last build_context_def Let_def
        system_prompt_ids_def slice_from_all)
  have 2: "slice_from (int (length (system_prompt_ids (tokenizer e) (system_prompt e))) - max_length e)
      (turn_ids (config e) (tokenizer e) [(text, [])]) = turn_ids (config e) (tokenizer e) [(text, [])]"
    using fits by (intro slice_from_all) auto
  show ?thesis
    by (simp add: prime_advance [OF adv] 1 build_context_def Let_def 2)
qed

lemma cache_matches_full_first_turn:
  assumes adv: "update e = advance (forward e)"
    and fits: "int (length (system_prompt_ids (tokenizer e) (system_prompt e))
        + length (turn_ids (config e) (tokenizer e) [(text, [])]) + length evs) \<le> max_length e"
    and nz: "0 \<notin> set (sampled (cache_run e [(text, [])] (prime e []) evs))"
  shows "sampled (cache_run e [(text, [])] (prime e []) evs) = sampled (full_run e [(text, [])] evs) \<and>
         status (cache_run e [(text, [])] (prime e []) evs) = status (full_run e [(text, [])] evs) \<and>
         response (cache_run e [(text, [])] (prime e []) evs) = response (full_run e [(text, [])] evs) \<and>
         printed (cache_run e [(text, [])] (prime e []) evs) = printed (full_run e [(text, [])] evs)"
proof -
  from fits have fits0: "int (length (system_prompt_ids (tokenizer e) (system_prompt e))
        + length (turn_ids (config e) (tokenizer e) [(text, [])])) \<le> max_length e"
    by simp
  note sync = first_turn_sync [OF adv fits0]
  have len: "length (build_context (config e) (tokenizer e) [(text, [])] (max_length e) (system_prompt e))
      = length (system_prompt_ids (tokenizer e) (system_prompt e))
        + length (turn_ids (config e) (tokenizer e) [(text, [])])"
    using fits0 by (simp add: build_context_def Let_def slice_from_all)
  have "in_step e [(text, [])] (full_run e [(text, [])] evs)
      (cache_run e [(text, [])] (prime e []) evs)"
    using fits nz by (intro cache_run_in_step [OF adv sync]) (simp_all add: len)
  then show ?thesis by (simp add: in_step_def)
qed

lemma full_step_window:
  assumes "status st = Generating" and "sample_step e (forward e (input_ids st)) u = Inr (t, p)"
  shows "input_ids (full_step e (Draw u) st) = slice_from (- max_length e) (input_ids st @ [t])"
    and "fed (full_step e (Draw u) st) = fed st @ [input_ids st]"
  using assms by (simp_all add: full_step_def Let_def emit_full_fields emit_fields)

lemma full_step_fed:
  "fed (full_step e ev st) = fed st \<or>
   (status st = Generating \<and> fed (full_step e ev st) = fed st @ [input_ids st])"
proof (cases "status st = Generating")
  case False
  then show ?thesis by (simp add: full_step_def)
next
  case True
  show ?thesis
  proof (cases ev)
    case KeyboardInterrupt
    with True show ?thesis by (simp add: full_step_def)
  next
    case (Draw u)
    show ?thesis
    proof (cases "sample_step e (forward e (input_ids st)) u")
      case (Inl err)
      with True Draw show ?thesis by (simp add: full_step_def Let_def)
    next
      case (Inr tp)
      obtain t p where "tp = (t, p)" by (cases tp)
      with True Draw Inr show ?thesis
        by (simp add: full_step_def Let_def emit_fields)
    qed
  qed
qed

lemma full_step_input_bound:
  assumes "0 < max_length e"
  shows "input_ids (full_step e ev st) = input_ids st \<or>
         int (length (input_ids (full_step e ev st))) \<le> max_length e"
proof (cases "status st = Generating")
  case False
  then show ?thesis by (simp add: full_step_def)
next
  case True
  show ?thesis
  proof (cases ev)
    case KeyboardInterrupt
    with True show ?thesis by (simp add: full_step_def)
  next
    case (Draw u)
    show ?thesis
    proof (cases "sample_step e (forward e (input_ids st)) u")
      case (Inl err)
      with True Draw show ?thesis by (simp add: full_step_def Let_def)
    next
      case (Inr tp)
      obtain t p where "tp = (t, p)" by (cases tp)
      with True Draw Inr assms show ?thesis
        by (auto simp: full_step_def Let_def emit_full_fields length_slice_from min_def)
    qed
  qed
qed

lemma full_run_inputs_bounded:
  assumes "int (length (system_prompt_ids (tokenizer e) (system_prompt e))) < max_length e"
  shows "list_all (\<lambda>x. int (length x) \<le> max_length e) (fed (full_run e hist evs)) \<and>
         int (length (input_ids (full_run e hist evs))) \<le> max_length e"
proof (induction evs rule: rev_induct)
  case Nil
  from assms show ?case
    by (simp add: full_run_def full_init_def build_context_length_strict)
next
  case (snoc ev evs)
  from assms have pos: "0 < max_length e" by simp
  let ?st = "full_run e hist evs"
  have s: "full_run e hist (evs @ [ev]) = full_step e ev ?st"
    by (simp add: full_run_def)
  from full_step_fed [of e ev ?st] snoc
  have 1: "list_all (\<lambda>x. int (length x) \<le> max_length e) (fed (full_step e ev ?st))"
    by auto
  from full_step_input_bound [OF pos, of ev ?st] snoc
  have 2: "int (length (input_ids (full_step e ev ?st))) \<le> max_length e"
    by auto
  from 1 2 show ?case by (simp add: s)
qed

lemma flip_env_prompt_dropped:
  "fed (full_run (flip_env\<lparr>max_length := 12\<rparr>) [(''hi'', '''')]
     [Draw 0, Draw 0, Draw 0, KeyboardInterrupt]) =
     [[115, 10, 10, 10, 72, 104, 105, 10, 10, 10, 65],
      [115, 10, 10, 10, 72, 104, 105, 10, 10, 10, 65, 0],
      [10, 10, 10, 72, 104, 105, 10, 10, 10, 65, 0, 1]]"
  by code_simp

text \<open>
  Claim C5. In the cache-incremental loop the first model call of a turn receives the
  one-turn context of the newest human turn (lemmas \<open>cache_step_draw\<close> and
  \<open>cache_input_first\<close>), and a later call receives the token sampled just before when
  that token's id is not zero (\<open>cache_input_nonzero\<close>). The test \<open>if not last_out\<close> is
  also true for a tensor holding the id 0, so after sampling token 0 the loop feeds the
  whole turn context again instead of that token. In the run below the first draw gives
  token 0 and the second call receives the turn context, not \<open>[0]\<close>.
\<close>

theorem cache_loop_refeeds_turn_after_token_zero:
  "sampled (cache_run flip_cache_env [(''hi'', '''')] (prime flip_cache_env [])
     [Draw 0, Draw 0, KeyboardInterrupt]) = [0, 0] \<and>
   fed (cache_run flip_cache_env [(''hi'', '''')] (prime flip_cache_env [])
     [Draw 0, Draw 0, KeyboardInterrupt]) =
     [[72, 104, 105, 10, 10, 10, 65], [72, 104, 105, 10, 10, 10, 65]]"
  by code_simp

text \<open>
  Claim C1. With the model's cache call modelled as \<open>advance\<close>, the cache-incremental
  loop and the full-recompute loop of a first turn sample the same tokens under the same
  draws as long as the context fits \<open>max_length\<close> and no sampled token has id 0 (lemma
  \<open>cache_matches_full_first_turn\<close>). When token 0 is sampled the cache loop feeds the turn
  context again, the cache no longer holds the context of the full-recompute loop, and
  the two runs part: below, the same draws give the tokens 0, 1 in full-recompute mode
  and 0, 0 in cache-incremental mode, with nothing truncated.
\<close>

theorem cache_decoding_diverges_after_token_zero:
  "sampled (full_run flip_env [(''hi'', '''')] [Draw 0, Draw 0, KeyboardInterrupt]) = [0, 1] \<and>
   sampled (cache_run flip_cache_env [(''hi'', '''')] (prime flip_cache_env [])
     [Draw 0, Draw 0, KeyboardInterrupt]) = [0, 0] \<and>
   fed (full_run flip_env [(''hi'', '''')] [Draw 0, Draw 0, KeyboardInterrupt]) =
     [[115, 10, 10, 10, 72, 104, 105, 10, 10, 10, 65],
      [115, 10, 10, 10, 72, 104, 105, 10, 10, 10, 65, 0]] \<and>
   kv (cache_run flip_cache_env [(''hi'', '''')] (prime flip_cache_env [])
     [Draw 0, Draw 0, KeyboardInterrupt]) =
     [115, 10, 10, 10, 72, 104, 105, 10, 10, 10, 65, 72, 104, 105, 10, 10, 10, 65]"
  by code_simp

text \<open>
  Claim C10. In the full-recompute loop every input after the first is the last
  \<open>max_length\<close> tokens of the previous input extended by the sampled token (lemma
  \<open>full_step_window\<close>), a window that can drop the system prompt (lemma
  \<open>flip_env_prompt_dropped\<close>), and every input has at most \<open>max_length\<close> tokens when the
  pinned prefix is shorter than \<open>max_length\<close> (lemma \<open>full_run_inputs_bounded\<close>). The first
  input is the result of \<open>build_context\<close>: when the pinned prefix has exactly
  \<open>max_length\<close> tokens it is longer than \<open>max_length\<close>. Below, \<open>max_length\<close> is 4, the
  prefix has 4 tokens, and the first model input has 11 tokens.
\<close>

theorem full_loop_first_input_exceeds_max_length:
  "max_length (flip_env\<lparr>max_length := 4\<rparr>) = 4 \<and>
   length (system_prompt_ids (tokenizer (flip_env\<lparr>max_length := 4\<rparr>))
     (system_prompt (flip_env\<lparr>max_length := 4\<rparr>))) = 4 \<and>
   fed (full_run (flip_env\<lparr>max_length := 4\<rparr>) [(''hi'', '''')]
     [Draw 0, Draw 0, KeyboardInterrupt]) =
     [[115, 10, 10, 10, 72, 104, 105, 10, 10, 10, 65], [10, 10, 65, 0]]"
  by code_simp

section \<open>Properties of the sampling step\<close>

lemma py_round_of_nat: "py_round (real n) = int n"
  by (simp add: py_round_def)

lemma pick_index_bound: "ws \<noteq> [] \<Longrightarrow> pick_index ws r i < i + length ws"
  by (induction ws r i rule: pick_index.induct) auto

lemma multinomial_ok:
  assumes "ws \<noteq> []" and "\<forall>w\<in>set ws. 0 < w"
  shows "\<exists>s. multinomial ws u = Inr s \<and> s < length ws"
proof -
  from assms have neg: "\<not> list_ex (\<lambda>w. w < 0) ws"
    by (auto simp: list_ex_iff)
  obtain w ws' where ws: "ws = w # ws'" using assms(1) by (cases ws) auto
  have "0 \<le> sum_list ws'" using assms(2) ws by (intro sum_list_nonneg) auto
  moreover have "0 < w" using assms(2) ws by simp
  ultimately have pos: "0 < sum_list ws" using ws by simp
  from pick_index_bound [OF assms(1), of "u * sum_list ws" 0] neg pos assms(1)
  show ?thesis by (simp add: multinomial_def)
qed

lemma ranked_set: "set (ranked xs) = set (zip xs [0..<length xs])"
  by (simp add: ranked_def)

lemma ranked_length: "length (ranked xs) = length xs"
  by (simp add: ranked_def)

lemma ranked_distinct: "distinct (map snd (ranked xs))"
proof -
  have z: "map snd (zip xs [0..<length xs]) = [0..<length xs]"
    by (simp add: map_snd_zip)
  have "set (map snd (ranked xs)) = set (map snd (zip xs [0..<length xs]))"
    by (simp only: set_map ranked_set)
  then have "set (map snd (ranked xs)) = set [0..<length xs]"
    unfolding z .
  then have "card (set (map snd (ranked xs))) = length (map snd (ranked xs))"
    by (simp add: ranked_length)
  then show ?thesis by (rule card_distinct)
qed

lemma ranked_entry: "(p, i) \<in> set (ranked xs) \<Longrightarrow> i < length xs \<and> p = xs ! i"
  by (auto simp: ranked_set set_zip)

lemma ranked_has: "i < length xs \<Longrightarrow> (xs ! i, i) \<in> set (ranked xs)"
  by (force simp: ranked_set set_zip)

lemma ranked_order:
  assumes "a \<in> set (take k (ranked xs))" and "b \<in> set (drop k (ranked xs))"
  shows "fst b \<le> fst a"
proof -
  have "sorted (map (\<lambda>pi. - fst pi) (take k (ranked xs) @ drop k (ranked xs)))"
    by (simp add: ranked_def)
  then have "\<forall>x\<in>set (take k (ranked xs)). \<forall>y\<in>set (drop k (ranked xs)). - fst x \<le> - fst y"
    unfolding map_append sorted_append by auto
  with assms show ?thesis by auto
qed

lemma topk_ranked:
  "0 \<le> k \<Longrightarrow> k \<le> int (length xs) \<Longrightarrow>
   topk k xs = Inr (map fst (take (nat k) (ranked xs)), map snd (take (nat k) (ranked xs)))"
  by (simp add: topk_def Let_def)

lemma topk_keeps_highest:
  assumes k: "0 \<le> k" "k \<le> int (length xs)"
    and i: "i \<in> set (map snd (take (nat k) (ranked xs)))"
    and j: "j < length xs" "xs ! i < xs ! j"
  shows "j \<in> set (map snd (take (nat k) (ranked xs)))"
proof (rule ccontr)
  assume out: "j \<notin> set (map snd (take (nat k) (ranked xs)))"
  have "(xs ! j, j) \<in> set (take (nat k) (ranked xs) @ drop (nat k) (ranked xs))"
    using ranked_has [OF j(1)] by simp
  then have "(xs ! j, j) \<in> set (take (nat k) (ranked xs)) \<or>
      (xs ! j, j) \<in> set (drop (nat k) (ranked xs))"
    unfolding set_append by blast
  moreover have "(xs ! j, j) \<notin> set (take (nat k) (ranked xs))"
    using out by force
  ultimately have b: "(xs ! j, j) \<in> set (drop (nat k) (ranked xs))"
    by blast
  from i obtain p where a: "(p, i) \<in> set (take (nat k) (ranked xs))" by auto
  then have "(p, i) \<in> set (ranked xs)" by (rule in_set_takeD)
  then have p: "p = xs ! i" by (simp add: ranked_entry)
  from ranked_order [OF a b] p j(2) show False by simp
qed

lemma sample_step_in_topk:
  assumes k1: "1 \<le> py_round (real (vocab_size e) * top_p e)"
    and kn: "py_round (real (vocab_size e) * top_p e)
        \<le> int (length (softmax e (map (\<lambda>x. x / temperature e) outp)))"
    and pos: "\<forall>p\<in>set (softmax e (map (\<lambda>x. x / temperature e) outp)). 0 < p"
  shows "\<exists>t p. sample_step e outp u = Inr (t, p) \<and>
           t < length (softmax e (map (\<lambda>x. x / temperature e) outp)) \<and>
           p = softmax e (map (\<lambda>x. x / temperature e) outp) ! t \<and>
           card {j. j < length (softmax e (map (\<lambda>x. x / temperature e) outp)) \<and>
                    p < softmax e (map (\<lambda>x. x / temperature e) outp) ! j}
             < nat (py_round (real (vocab_size e) * top_p e))"
proof -
  let ?xs = "softmax e (map (\<lambda>x. x / temperature e) outp)"
  let ?k = "py_round (real (vocab_size e) * top_p e)"
  let ?best = "take (nat ?k) (ranked ?xs)"
  have k0: "0 \<le> ?k" using k1 by simp
  have top: "topk ?k ?xs = Inr (map fst ?best, map snd ?best)"
    by (rule topk_ranked [OF k0 kn])
  have len: "length ?best = nat ?k" using kn by (simp add: ranked_length)
  have ne: "map fst ?best \<noteq> []" using len k1 by auto
  have pp: "\<forall>w\<in>set (map fst ?best). 0 < w"
  proof
    fix w assume "w \<in> set (map fst ?best)"
    then obtain i where "(w, i) \<in> set ?best" by auto
    then have "(w, i) \<in> set (ranked ?xs)" by (rule in_set_takeD)
    then have "i < length ?xs \<and> w = ?xs ! i" by (rule ranked_entry)
    with pos show "0 < w" by auto
  qed
  from multinomial_ok [OF ne pp, of u] obtain s
    where s: "multinomial (map fst ?best) u = Inr s" "s < length ?best" by auto
  let ?t = "map snd ?best ! s"
  let ?p = "map fst ?best ! s"
  have res: "sample_step e outp u = Inr (?t, ?p)"
    by (simp add: sample_step_def Let_def top s(1))
  have "?best ! s \<in> set ?best" using s(2) by (rule nth_mem)
  moreover have "?best ! s = (?p, ?t)" using s(2) by (simp add: prod_eq_iff)
  ultimately have mem: "(?p, ?t) \<in> set ?best" by simp
  then have "(?p, ?t) \<in> set (ranked ?xs)" by (rule in_set_takeD)
  then have tp: "?t < length ?xs \<and> ?p = ?xs ! ?t" by (rule ranked_entry)
  have tin: "?t \<in> set (map snd ?best)" using mem by force
  have sub: "{j. j < length ?xs \<and> ?p < ?xs ! j} \<subseteq> set (map snd ?best) - {?t}"
  proof
    fix j assume "j \<in> {j. j < length ?xs \<and> ?p < ?xs ! j}"
    then have j: "j < length ?xs" "?xs ! ?t < ?xs ! j" using tp by auto
    from topk_keeps_highest [OF k0 kn tin j] j(2)
    show "j \<in> set (map snd ?best) - {?t}" by auto
  qed
  have dist: "distinct (map snd ?best)"
    using ranked_distinct [of ?xs] by (simp add: take_map [symmetric] distinct_take)
  have "card (set (map snd ?best) - {?t}) < card (set (map snd ?best))"
    using tin by (intro card_Diff1_less) auto
  also have "\<dots> = nat ?k"
    using distinct_card [OF dist] len by simp
  finally have "card (set (map snd ?best) - {?t}) < nat ?k" .
  moreover have "card {j. j < length ?xs \<and> ?p < ?xs ! j} \<le> card (set (map snd ?best) - {?t})"
    using sub by (intro card_mono) auto
  ultimately have "card {j. j < length ?xs \<and> ?p < ?xs ! j} < nat ?k" by simp
  with res tp show ?thesis by blast
qed

lemma sample_step_top_p_one:
  assumes "top_p e = 1"
    and "length (softmax e (map (\<lambda>x. x / temperature e) outp)) = vocab_size e"
    and "0 < vocab_size e"
    and "\<forall>p\<in>set (softmax e (map (\<lambda>x. x / temperature e) outp)). 0 < p"
  shows "\<exists>t p. sample_step e outp u = Inr (t, p) \<and> t < vocab_size e"
proof -
  have k: "py_round (real (vocab_size e) * top_p e) = int (vocab_size e)"
    using assms(1) by (simp add: py_round_of_nat)
  from sample_step_in_topk [where e = e and outp = outp and u = u] assms k
  show ?thesis by auto
qed

lemma sample_step_empty_topk:
  assumes "py_round (real (vocab_size e) * top_p e) = 0"
  shows "sample_step e outp u = Inl RuntimeError"
  using assms by (simp add: sample_step_def topk_def multinomial_def)

lemma py_round_bounds: "\<lfloor>x\<rfloor> \<le> py_round x \<and> py_round x \<le> \<lfloor>x\<rfloor> + 1"
  by (simp add: py_round_def Let_def)

lemma py_round_int: "py_round (of_int n) = n"
  by (simp add: py_round_def)

lemma confidence_level_range:
  assumes "0 \<le> p" and "p \<le> 1"
  shows "0 \<le> confidence_level p \<and> confidence_level p \<le> 16"
proof -
  have s: "0 \<le> sqrt p * 16" "sqrt p * 16 \<le> 16"
    using assms by (simp_all add: real_sqrt_le_1_iff)
  have lo: "0 \<le> \<lfloor>sqrt p * 16\<rfloor>" using s(1) by simp
  show ?thesis
  proof (cases "sqrt p * 16 = 16")
    case True
    then show ?thesis using py_round_int [of 16] by (simp add: confidence_level_def)
  next
    case False
    with s(2) have "sqrt p * 16 < 16" by simp
    then have "\<lfloor>sqrt p * 16\<rfloor> < 16" by (simp add: floor_less_iff)
    with lo py_round_bounds [of "sqrt p * 16"] show ?thesis
      unfolding confidence_level_def by linarith
  qed
qed

text \<open>
  Claim C7. With \<open>top_p = 1\<close> and a distribution over exactly \<open>vocab_size\<close> tokens the
  sampling step succeeds (lemma \<open>sample_step_top_p_one\<close>), and whenever
  \<open>round(vocab_size * top_p)\<close> is at least 1 it succeeds and returns one of that many
  highest-probability tokens (lemma \<open>sample_step_in_topk\<close>). For a valid \<open>top_p\<close> close
  to zero \<open>round(vocab_size * top_p)\<close> is 0: \<open>topk(0)\<close> returns empty tensors and
  \<open>torch.multinomial\<close> raises on the empty weights, so the step fails instead of
  returning a token. Here \<open>vocab_size\<close> is 1000 and \<open>top_p\<close> is 0.0001, for any model
  output and any draw.
\<close>

theorem sample_step_fails_for_small_top_p:
  "(0 :: real) < 1 / 10000 \<and> (1 / 10000 :: real) \<le> 1 \<and>
   py_round (real 1000 * (1 / 10000)) = 0 \<and>
   sample_step (e\<lparr>vocab_size := 1000, top_p := 1 / 10000\<rparr>) outp u = Inl RuntimeError"
  by (simp add: sample_step_def py_round_def topk_def multinomial_def)

lemma py_round_small: "0 \<le> x \<Longrightarrow> x \<le> 1 / 2 \<Longrightarrow> py_round x = 0"
proof -
  assume a: "0 \<le> x" "x \<le> 1 / 2"
  then have f: "\<lfloor>x\<rfloor> = 0" by (simp add: floor_eq_iff)
  with a show ?thesis by (simp add: py_round_def Let_def)
qed

lemma sample_step_fixed_size_topk:
  assumes k1: "1 \<le> py_round (real (vocab_size e) * top_p e)"
    and kn: "py_round (real (vocab_size e) * top_p e)
        \<le> int (length (softmax e (map (\<lambda>x. x / temperature e) outp)))"
    and pos: "\<forall>p\<in>set (softmax e (map (\<lambda>x. x / temperature e) outp)). 0 < p"
  shows "\<exists>probs indices s.
           topk (py_round (real (vocab_size e) * top_p e))
             (softmax e (map (\<lambda>x. x / temperature e) outp)) = Inr (probs, indices) \<and>
           length probs = nat (py_round (real (vocab_size e) * top_p e)) \<and>
           length indices = nat (py_round (real (vocab_size e) * top_p e)) \<and>
           distinct indices \<and>
           (\<forall>i\<in>set indices. \<forall>j<length (softmax e (map (\<lambda>x. x / temperature e) outp)).
              j \<notin> set indices \<longrightarrow>
              softmax e (map (\<lambda>x. x / temperature e) outp) ! j
                \<le> softmax e (map (\<lambda>x. x / temperature e) outp) ! i) \<and>
           multinomial probs u = Inr s \<and> s < length probs \<and>
           sample_step e outp u = Inr (indices ! s, probs ! s) \<and>
           probs ! s = softmax e (map (\<lambda>x. x / temperature e) outp) ! (indices ! s)"
proof -
  let ?xs = "softmax e (map (\<lambda>x. x / temperature e) outp)"
  let ?k = "py_round (real (vocab_size e) * top_p e)"
  let ?best = "take (nat ?k) (ranked ?xs)"
  have k0: "0 \<le> ?k" using k1 by simp
  have top: "topk ?k ?xs = Inr (map fst ?best, map snd ?best)"
    by (rule topk_ranked [OF k0 kn])
  have len: "length ?best = nat ?k" using kn by (simp add: ranked_length)
  have ne: "map fst ?best \<noteq> []" using len k1 by auto
  have pp: "\<forall>w\<in>set (map fst ?best). 0 < w"
  proof
    fix w assume "w \<in> set (map fst ?best)"
    then obtain i where "(w, i) \<in> set ?best" by auto
    then have "(w, i) \<in> set (ranked ?xs)" by (rule in_set_takeD)
    then have "i < length ?xs \<and> w = ?xs ! i" by (rule ranked_entry)
    with pos show "0 < w" by auto
  qed
  from multinomial_ok [OF ne pp, of u] obtain s
    where s: "multinomial (map fst ?best) u = Inr s" "s < length ?best" by auto
  have res: "sample_step e outp u = Inr (map snd ?best ! s, map fst ?best ! s)"
    by (simp add: sample_step_def Let_def top s(1))
  have "?best ! s \<in> set ?best" using s(2) by (rule nth_mem)
  then have "?best ! s \<in> set (ranked ?xs)" by (rule in_set_takeD)
  then have "(fst (?best ! s), snd (?best ! s)) \<in> set (ranked ?xs)" by simp
  then have "fst (?best ! s) = ?xs ! snd (?best ! s)" by (simp add: ranked_entry)
  then have pr: "map fst ?best ! s = ?xs ! (map snd ?best ! s)" using s(2) by simp
  have dist: "distinct (map snd ?best)"
    using ranked_distinct [of ?xs] by (simp add: take_map [symmetric] distinct_take)
  have high: "\<forall>i\<in>set (map snd ?best). \<forall>j<length ?xs.
      j \<notin> set (map snd ?best) \<longrightarrow> ?xs ! j \<le> ?xs ! i"
  proof (intro ballI allI impI)
    fix i j
    assume i: "i \<in> set (map snd ?best)" and j: "j < length ?xs"
      and out: "j \<notin> set (map snd ?best)"
    show "?xs ! j \<le> ?xs ! i"
    proof (rule ccontr)
      assume "\<not> ?xs ! j \<le> ?xs ! i"
      then have "?xs ! i < ?xs ! j" by simp
      from topk_keeps_highest [OF k0 kn i j this] out show False by simp
    qed
  qed
  from top len dist high s res pr show ?thesis
    by (intro exI [of _ "map fst ?best"] exI [of _ "map snd ?best"] exI [of _ s]) simp
qed

lemma fixed_size_topk_is_not_a_nucleus:
  "sample_step (flip_env\<lparr>vocab_size := 3, top_p := 2 / 3\<rparr>) [9 / 10, 1 / 20, 1 / 20] (99 / 100)
     = Inr (1, 1 / 20)"
  by code_simp

text \<open>
  Claim C6. One sampling step takes the probabilities \<open>softmax(logits / temperature)\<close>,
  keeps the \<open>round(vocab_size * top_p)\<close> entries of highest probability, a set of fixed
  size and not a cumulative-probability nucleus (lemmas \<open>sample_step_fixed_size_topk\<close>
  and \<open>fixed_size_topk_is_not_a_nucleus\<close>), draws a position among them by the weights
  as they are, and returns the token and its probability, from which the confidence
  \<open>round(sqrt(prob) * 16)\<close> is computed; all of this whenever the number of kept
  entries is at least 1 and at most the number of logits. For a valid temperature and a
  valid \<open>top_p\<close> close to zero the number of kept entries is 0: nothing is kept, the
  draw raises, and the step returns no token and no confidence. Here the temperature is
  1, \<open>vocab_size\<close> is 1000 and \<open>top_p\<close> is 0.0001 (any product between 0 and one half
  rounds to 0, lemma \<open>py_round_small\<close>), for any logits, any softmax and any draw.
\<close>

theorem sample_step_draws_no_token_for_small_top_p:
  "(0 :: real) < 1 \<and> (1 :: real) \<le> 2 \<and> (0 :: real) < 1 / 10000 \<and> (1 / 10000 :: real) \<le> 1 \<and>
   topk (py_round (real 1000 * (1 / 10000))) xs = Inr ([], []) \<and>
   multinomial [] u = Inl RuntimeError \<and>
   (\<forall>t p. sample_step (e\<lparr>vocab_size := 1000, temperature := 1, top_p := 1 / 10000\<rparr>) outp u
      \<noteq> Inr (t, p))"
  by (simp add: sample_step_def py_round_def topk_def multinomial_def)

section \<open>Properties of the parameter commands\<close>

lemma top_p_command_result:
  "top_p_command py_float text tc =
     (case str_split text of
        _ # arg # _ \<Rightarrow>
          (case py_float arg of
             Some (Finite x) \<Rightarrow>
               if 0 < x \<and> x \<le> 1 then (tc(''top_p'' \<mapsto> Finite x), TopPSet (Finite x))
               else (tc, TopPUsage)
           | Some NaN \<Rightarrow> (tc(''top_p'' \<mapsto> NaN), TopPSet NaN)
           | _ \<Rightarrow> (tc, TopPUsage))
      | _ \<Rightarrow> (tc, TopPUsage))"
  by (auto simp: top_p_command_def float_le_def float_gt_def
      split: list.splits option.splits pyfloat.splits)

lemma temperature_command_result:
  "temperature_command py_float text tc =
     (case str_split text of
        _ # arg # _ \<Rightarrow>
          (case py_float arg of
             Some (Finite x) \<Rightarrow>
               if 0 < x \<and> x \<le> 2
               then (tc(''temperature'' \<mapsto> Finite x), TemperatureSet (Finite x))
               else (tc, TemperatureUsage)
           | Some NaN \<Rightarrow> (tc(''temperature'' \<mapsto> NaN), TemperatureSet NaN)
           | _ \<Rightarrow> (tc, TemperatureUsage))
      | _ \<Rightarrow> (tc, TemperatureUsage))"
  by (auto simp: temperature_command_def float_le_def float_gt_def
      split: list.splits option.splits pyfloat.splits)

lemma parameter_command_examples:
  "parameter_command float_literals ''!top_p 1.5'' [''top_p'' \<mapsto> Finite (9 / 10)] =
     Some ([''top_p'' \<mapsto> Finite (9 / 10)], TopPUsage)"
  "parameter_command float_literals ''!top_p 0.9'' [''top_p'' \<mapsto> Finite (1 / 2)] =
     Some ([''top_p'' \<mapsto> Finite (9 / 10)], TopPSet (Finite (9 / 10)))"
  "parameter_command float_literals ''!top_p'' [''top_p'' \<mapsto> Finite (1 / 2)] =
     Some ([''top_p'' \<mapsto> Finite (1 / 2)], TopPUsage)"
  "parameter_command float_literals ''!top_p abc'' [''top_p'' \<mapsto> Finite (1 / 2)] =
     Some ([''top_p'' \<mapsto> Finite (1 / 2)], TopPUsage)"
  "parameter_command float_literals ''!top_p inf'' [''top_p'' \<mapsto> Finite (1 / 2)] =
     Some ([''top_p'' \<mapsto> Finite (1 / 2)], TopPUsage)"
  by (simp_all add: parameter_command_def top_p_command_def str_split_def is_space_def
      float_literals_def float_le_def float_gt_def)

text \<open>
  Claim C8. A parameter command stores the parsed value and prints the confirmation
  exactly when the value is a finite number inside the domain or a NaN; a missing or
  unparsable argument, an infinity and a finite number outside the domain leave the
  dictionary unchanged and print the usage line (lemmas \<open>top_p_command_result\<close> and
  \<open>temperature_command_result\<close>). The check \<open>top_p <= 0 or top_p > 1\<close> is false for a
  NaN, which \<open>float("nan")\<close> returns, so \<open>!top_p nan\<close> and \<open>!temperature nan\<close> replace the
  stored value by a NaN, a value outside the domain, and print the confirmation.
\<close>

theorem nan_passes_parameter_validation:
  "parameter_command float_literals ''!top_p nan'' [''top_p'' \<mapsto> Finite (9 / 10)] =
     Some ([''top_p'' \<mapsto> NaN], TopPSet NaN) \<and>
   parameter_command float_literals ''!temperature nan'' [''temperature'' \<mapsto> Finite 1] =
     Some ([''temperature'' \<mapsto> NaN], TemperatureSet NaN)"
  by (simp add: parameter_command_def top_p_command_def temperature_command_def str_split_def
      is_space_def float_literals_def float_le_def float_gt_def)

section \<open>Properties of a whole turn\<close>

lemma strip_trimmed:
  "strip s = [] \<or> (\<not> is_space (hd (strip s)) \<and> \<not> is_space (last (strip s)))"
proof (cases "strip s = []")
  case True
  then show ?thesis by simp
next
  case False
  let ?r = "dropWhile is_space (rev (dropWhile is_space s))"
  from False have r: "?r \<noteq> []" by (simp add: strip_def)
  then have h: "\<not> is_space (hd ?r)" by (rule hd_dropWhile)
  have l: "last (strip s) = hd ?r" using r by (simp add: strip_def last_rev)
  obtain us where us: "rev (dropWhile is_space s) = us @ ?r"
    by (metis takeWhile_dropWhile_id)
  then have "dropWhile is_space s = rev ?r @ rev us"
    by (metis rev_append rev_rev_ident)
  then have d: "dropWhile is_space s = strip s @ rev us" by (simp add: strip_def)
  with False have "dropWhile is_space s \<noteq> []" by auto
  then have "\<not> is_space (hd (dropWhile is_space s))" by (rule hd_dropWhile)
  with d False have "\<not> is_space (hd (strip s))" by simp
  with h l show ?thesis by simp
qed

lemma turn_completes:
  assumes "turn e text evs (hist, c) = Some (Inr (hist', c'))"
  shows "\<exists>resp. hist' = hist @ [(text, strip resp)]"
  using assms
  by (auto simp: turn_def append_history_def Let_def split: prod.splits status.splits if_splits)

text \<open>
  Across turns the two modes see different token sequences. When a turn ends through the
  newline rule, the cache holds the sampled tokens up to the second newline (the third
  is never fed), whereas the context rebuilt from the history holds the encoding of the
  stripped response followed by the three-newline separator. Below, both modes complete
  a first turn with the same response; at the first step of the second turn the
  stateless call receives a context with three newlines after the response and the
  cache holds two.
\<close>

lemma second_turn_cache_and_context:
  "turn newline_env ''hi'' [Draw 0, Draw 0, Draw 0, Draw 0] ([], []) =
     Some (Inr ([(''hi'', [CHR 0x07])], [])) \<and>
   turn newline_cache_env ''hi'' [Draw 0, Draw 0, Draw 0, Draw 0] ([], prime newline_cache_env []) =
     Some (Inr ([(''hi'', [CHR 0x07])], [72, 104, 105, 10, 10, 10, 65, 7, 10, 10])) \<and>
   fed (full_run newline_env [(''hi'', [CHR 0x07]), (''yo'', '''')] [Draw 0]) =
     [[72, 104, 105, 10, 10, 10, 65, 7, 10, 10, 10, 72, 121, 111, 10, 10, 10, 65]] \<and>
   kv (cache_run newline_cache_env [(''hi'', [CHR 0x07]), (''yo'', '''')]
         [72, 104, 105, 10, 10, 10, 65, 7, 10, 10] [Draw 0]) =
     [72, 104, 105, 10, 10, 10, 65, 7, 10, 10, 72, 121, 111, 10, 10, 10, 65]"
  by code_simp

end
